theory Spec2Isabelle
  imports Main "HOL-Library.Sublist" "HOL-Library.Multiset"
begin

unbundle bit_operations_syntax

section \<open>Strings\<close>

text \<open>
  Python strings are modelled as \<open>string\<close> (lists of \<open>char\<close>), so the model covers the
  code points 0 to 255. The character classes below are those of the regular expressions
  and string methods that \<open>SuspiciousNetNeighbors.py\<close> applies to such strings.
\<close>

definition is_digit :: "char \<Rightarrow> bool" where
  \<comment> \<open>the class \<open>[0-9]\<close>\<close>
  "is_digit c = (c \<in> set ''0123456789'')"

definition is_hex :: "char \<Rightarrow> bool" where
  \<comment> \<open>the class \<open>[0-9a-fA-F]\<close>\<close>
  "is_hex c = (c \<in> set ''0123456789abcdefABCDEF'')"

definition lower_char :: "char \<Rightarrow> char" where
  \<comment> \<open>\<open>str.lower\<close> on one character: A to Z, and the Latin-1 capitals 0xC0 to 0xDE
      other than the multiplication sign 0xD7, move up by 32\<close>
  "lower_char c =
     (let n = (of_char c :: nat)
      in if (65 \<le> n \<and> n \<le> 90) \<or> (192 \<le> n \<and> n \<le> 222 \<and> n \<noteq> 215)
         then char_of (n + 32) else c)"

definition lower :: "string \<Rightarrow> string" where
  "lower s = map lower_char s"

section \<open>MAC prefix matching (lines 54 to 63 of \<open>main\<close>)\<close>

definition norm_mac :: "string \<Rightarrow> string" where
  \<comment> \<open>\<open>_norm\<close>: \<open>re.sub(r'[^0-9a-fA-F]', '', mac).lower()\<close>\<close>
  "norm_mac mac = lower (filter is_hex mac)"

definition matches :: "string \<Rightarrow> string \<Rightarrow> bool" where
  \<comment> \<open>the test of line 61, \<open>_norm(mac).startswith(_norm(pref))\<close>\<close>
  "matches mac pref = prefix (norm_mac pref) (norm_mac mac)"

type_synonym rule = "string \<times> string"
type_synonym entry = "string \<times> string"
type_synonym match = "string \<times> string \<times> string"

definition mac_device_map :: "rule list" where
  \<comment> \<open>the dict literal of lines 41 to 52, in insertion order, which is the order
      \<open>.items()\<close> iterates in\<close>
  "mac_device_map =
     [(''94:83:c4'', ''GL Technologies''),
      (''28:cd:c1'', ''RaspberryPi''),
      (''2c:cf:67'', ''RaspberryPi''),
      (''88:a2:9e'', ''RaspberryPi''),
      (''8c:1f:64:34:a'', ''RaspberryPi''),
      (''d8:3a:dd'', ''RaspberryPi''),
      (''dc:a6:32'', ''RaspberryPi''),
      (''e4:5f:01'', ''RaspberryPi''),
      (''f0:40:af:9'', ''RaspberryPi''),
      (''0a:bc:de:f0:12:34'', ''Test'')]"

fun rule_loop :: "rule list \<Rightarrow> string \<Rightarrow> string \<Rightarrow> string \<Rightarrow> match list \<Rightarrow> match list" where
  \<comment> \<open>the inner loop of lines 60 to 63 over the rules still to try; it appends at the
      first hit and leaves through \<open>break\<close>\<close>
  "rule_loop [] mac_n ip mac ms = ms"
| "rule_loop ((pref, device) # rs) mac_n ip mac ms =
     (if prefix (norm_mac pref) mac_n then ms @ [(device, ip, mac)]
      else rule_loop rs mac_n ip mac ms)"

fun entry_loop :: "rule list \<Rightarrow> entry list \<Rightarrow> match list \<Rightarrow> match list" where
  \<comment> \<open>the outer loop of lines 58 to 63 over the entries still to visit\<close>
  "entry_loop rules [] ms = ms"
| "entry_loop rules ((ip, mac) # es) ms =
     entry_loop rules es (rule_loop rules (norm_mac mac) ip mac ms)"

definition find_matches :: "rule list \<Rightarrow> entry list \<Rightarrow> match list" where
  \<comment> \<open>lines 57 to 63 (and again 217 to 223): \<open>matches = []\<close>, then the two loops\<close>
  "find_matches rules entries = entry_loop rules entries []"

definition strip_sep :: "string \<Rightarrow> string" where
  \<comment> \<open>a MAC or prefix with its separators taken out: two strings that differ only in
      separator style (colons, dashes or none) have the same \<open>strip_sep\<close>\<close>
  "strip_sep s = filter (\<lambda>c. c \<noteq> CHR '':'' \<and> c \<noteq> CHR ''-'') s"

section \<open>String operations\<close>

fun split_on :: "char \<Rightarrow> string \<Rightarrow> string list" where
  \<comment> \<open>\<open>s.split(c)\<close> for a one-character separator: one more part than separators,
      empty parts kept\<close>
  "split_on c [] = [[]]"
| "split_on c (x # xs) =
     (if x = c then [] # split_on c xs
      else (case split_on c xs of
              [] \<Rightarrow> [[x]]
            | p # ps \<Rightarrow> (x # p) # ps))"

fun join_on :: "string \<Rightarrow> string list \<Rightarrow> string" where
  \<comment> \<open>\<open>sep.join(parts)\<close>\<close>
  "join_on sep [] = []"
| "join_on sep [p] = p"
| "join_on sep (p # q # ps) = p @ sep @ join_on sep (q # ps)"

definition digit_char :: "nat \<Rightarrow> char" where
  "digit_char d = ''0123456789'' ! (d mod 10)"

fun str_nat :: "nat \<Rightarrow> string" where
  \<comment> \<open>\<open>str(n)\<close>, also the \<open>{i}\<close> of an f-string, for an integer that is not negative\<close>
  "str_nat n = (if n < 10 then [digit_char n] else str_nat (n div 10) @ [digit_char (n mod 10)])"

declare str_nat.simps [simp del]

definition is_space :: "char \<Rightarrow> bool" where
  \<comment> \<open>the class \<open>\s\<close> of a \<open>str\<close> pattern, below code point 256: tab to carriage
      return, the separators 0x1C to 0x1F, space, 0x85 and 0xA0\<close>
  "is_space c =
     (let n = (of_char c :: nat)
      in (9 \<le> n \<and> n \<le> 13) \<or> (28 \<le> n \<and> n \<le> 31) \<or> n = 32 \<or> n = 133 \<or> n = 160)"

definition is_linebreak :: "char \<Rightarrow> bool" where
  \<comment> \<open>the line boundaries of \<open>str.splitlines\<close> below code point 256: LF, VT, FF, CR,
      0x1C, 0x1D, 0x1E and 0x85\<close>
  "is_linebreak c =
     (let n = (of_char c :: nat)
      in (10 \<le> n \<and> n \<le> 13) \<or> (28 \<le> n \<and> n \<le> 30) \<or> n = 133)"

fun splitlines_from :: "string \<Rightarrow> string \<Rightarrow> string list" where
  \<comment> \<open>\<open>str.splitlines()\<close> with the line read so far as first argument: CR LF is one
      boundary, and no empty line follows a final boundary\<close>
  "splitlines_from cur [] = (if cur = [] then [] else [cur])"
| "splitlines_from cur [c] = (if is_linebreak c then [cur] else [cur @ [c]])"
| "splitlines_from cur (c # d # cs) =
     (if c = CHR 0x0D \<and> d = CHR 0x0A then cur # splitlines_from [] cs
      else if is_linebreak c then cur # splitlines_from [] (d # cs)
      else splitlines_from (cur @ [c]) (d # cs))"

definition splitlines :: "string \<Rightarrow> string list" where
  "splitlines s = splitlines_from [] s"

definition replace_char :: "char \<Rightarrow> char \<Rightarrow> string \<Rightarrow> string" where
  \<comment> \<open>\<open>s.replace(a, b)\<close> for one-character \<open>a\<close> and \<open>b\<close>\<close>
  "replace_char a b s = map (\<lambda>c. if c = a then b else c) s"

section \<open>Regular expressions\<close>

text \<open>
  The three patterns of the program are built from character classes, literals,
  concatenation and greedy repetition of a class. A matcher lists every way the
  backtracking engine of \<open>re\<close> can match at the start of its input, as pairs of the
  text matched and the text left, in the order the engine tries them: a greedy
  repetition offers its longest match first, and in a concatenation the later part
  is retried before the earlier one gives up a character.
\<close>

type_synonym matcher = "string \<Rightarrow> (string \<times> string) list"

definition m_lit :: "string \<Rightarrow> matcher" where
  \<comment> \<open>a literal text\<close>
  "m_lit l s = (if prefix l s then [(l, drop (length l) s)] else [])"

definition m_rep :: "nat \<Rightarrow> nat option \<Rightarrow> (char \<Rightarrow> bool) \<Rightarrow> matcher" where
  \<comment> \<open>greedy repetition of a class: \<open>[..]+\<close> is \<open>m_rep 1 None\<close>, \<open>[..]*\<close> is
      \<open>m_rep 0 None\<close> and \<open>[..]{lo,hi}\<close> is \<open>m_rep lo (Some hi)\<close>\<close>
  "m_rep lo hi P s =
     (let run = length (takeWhile P s);
          top = (case hi of None \<Rightarrow> run | Some h \<Rightarrow> min h run)
      in map (\<lambda>k. (take k s, drop k s)) (rev [lo ..< Suc top]))"

definition m_seq :: "matcher \<Rightarrow> matcher \<Rightarrow> matcher" where
  \<comment> \<open>concatenation\<close>
  "m_seq p q s = concat (map (\<lambda>(a, r). map (\<lambda>(b, r'). (a @ b, r')) (q r)) (p s))"

fun search :: "(string \<Rightarrow> 'r list) \<Rightarrow> string \<Rightarrow> 'r option" where
  \<comment> \<open>\<open>pattern.search(s)\<close>: the first way to match at the leftmost position that has
      one; the argument gives, for a start position, the groups of every match there\<close>
  "search m [] = (case m [] of [] \<Rightarrow> None | r # _ \<Rightarrow> Some r)"
| "search m (c # cs) = (case m (c # cs) of [] \<Rightarrow> search m cs | r # _ \<Rightarrow> Some r)"

definition dotted_quad :: matcher where
  \<comment> \<open>\<open>[0-9]+(?:\.[0-9]+){3}\<close>, which is also \<open>[0-9]+\.[0-9]+\.[0-9]+\.[0-9]+\<close>\<close>
  "dotted_quad =
     m_seq (m_rep 1 None is_digit)
       (m_seq (m_seq (m_lit ''.'') (m_rep 1 None is_digit))
          (m_seq (m_seq (m_lit ''.'') (m_rep 1 None is_digit))
             (m_seq (m_lit ''.'') (m_rep 1 None is_digit))))"

definition is_mac_char :: "char \<Rightarrow> bool" where
  \<comment> \<open>the class \<open>[0-9A-Fa-f:-]\<close>\<close>
  "is_mac_char c = (c \<in> set ''0123456789ABCDEFabcdef:-'')"

definition arp_pattern :: "string \<Rightarrow> (string \<times> string) list" where
  \<comment> \<open>line 24: \<open>([0-9]+(?:\.[0-9]+){3})\s+([0-9A-Fa-f:-]{14,17})\<close>, giving groups 1
      and 2 of each match\<close>
  "arp_pattern s =
     concat (map (\<lambda>(ip, r1).
       concat (map (\<lambda>(ws, r2).
         map (\<lambda>(mac, r3). (ip, mac)) (m_rep 14 (Some 17) is_mac_char r2))
       (m_rep 1 None is_space r1)))
     (dotted_quad s))"

definition ipconfig_pattern :: "string \<Rightarrow> string list" where
  \<comment> \<open>line 74: \<open>IPv4 Address[. ]*: ([0-9]+\.[0-9]+\.[0-9]+\.[0-9]+)\<close>, giving group 1
      of each match\<close>
  "ipconfig_pattern s =
     concat (map (\<lambda>(lead, r1). map fst (dotted_quad r1))
       (m_seq (m_lit ''IPv4 Address'')
          (m_seq (m_rep 0 None (\<lambda>c. c = CHR ''.'' \<or> c = CHR '' '')) (m_lit '': '')) s))"

section \<open>Reading the neighbour cache (\<open>get_arp_entries\<close>)\<close>

datatype cmd_result =
  Failed
    \<comment> \<open>\<open>subprocess.run(..., text=True, check=True)\<close> raised: the command is missing,
        it left with a non-zero status, or its output could not be decoded\<close>
| Completed string
    \<comment> \<open>the command left with status 0; the argument is \<open>proc.stdout\<close>\<close>

fun line_loop :: "string list \<Rightarrow> entry list \<Rightarrow> entry list" where
  \<comment> \<open>the loop of lines 29 to 34 over the lines still to read\<close>
  "line_loop [] results = results"
| "line_loop (line # ls) results =
     (case search arp_pattern line of
        Some (ip, mac) \<Rightarrow>
          line_loop ls (results @ [(ip, replace_char CHR ''-'' CHR '':'' (lower mac))])
      | None \<Rightarrow> line_loop ls results)"

definition get_arp_entries :: "cmd_result \<Rightarrow> entry list" where
  \<comment> \<open>lines 18 to 35; the argument is the outcome of running \<open>arp -a\<close>\<close>
  "get_arp_entries run =
     (case run of
        Failed \<Rightarrow> []
      | Completed out \<Rightarrow> line_loop (splitlines out) [])"

section \<open>The ping sweep (\<open>ping_sweep\<close>, lines 81 to 94)\<close>

datatype sweep_arg = ArgList "string list" | ArgStr string

definition slash24 :: "string \<Rightarrow> string list" where
  \<comment> \<open>line 94 (and line 204): \<open>[f"{pref}.{i}" for i in range(1, 255)]\<close>\<close>
  "slash24 pref = map (\<lambda>i. pref @ ''.'' @ str_nat i) [1 ..< 255]"

definition ping_sweep_ips :: "sweep_arg \<Rightarrow> string list option" where
  \<comment> \<open>lines 84 to 94: the list \<open>ips\<close>, or \<open>None\<close> when the function returns at line 93\<close>
  "ping_sweep_ips prefix_or_ip =
     (case prefix_or_ip of
        ArgList ips \<Rightarrow> Some ips
      | ArgStr s \<Rightarrow>
          (let parts = split_on CHR ''.'' s
           in if length parts = 4 then Some (slash24 (join_on ''.'' (take 3 parts)))
              else if length parts = 3 then Some (slash24 s)
              else None))"

section \<open>Addresses (\<open>_ip2int\<close>, \<open>_int2ip\<close>, \<open>_mask_to_prefix\<close>)\<close>











section \<open>Targets from the interfaces (\<open>get_scan_targets_from_interface\<close>)\<close>


datatype 'a call = Raises | Returns 'a

record addr_entry =
  addr :: "string option"
  netmask :: "string option"

record netifaces =
  gateways_default :: "(string \<times> string) option call"
    \<comment> \<open>\<open>netifaces.gateways().get('default', {}).get(netifaces.AF_INET)\<close>: the pair of
        the gateway's address and the interface's name, when there is a default route\<close>
  interfaces :: "string list call"
    \<comment> \<open>\<open>netifaces.interfaces()\<close>\<close>
  ifaddresses :: "string \<Rightarrow> addr_entry list option call"
    \<comment> \<open>\<open>netifaces.ifaddresses(name).get(netifaces.AF_INET)\<close>\<close>






section \<open>The run (\<open>main\<close>)\<close>

datatype event =
  RunArp
    \<comment> \<open>\<open>arp -a\<close> is run, in \<open>get_arp_entries\<close>\<close>
| RunIpconfig
    \<comment> \<open>\<open>ipconfig\<close> is run, in \<open>get_local_ipv4\<close>\<close>
| Sweep "string list"
    \<comment> \<open>lines 96 to 129 of \<open>ping_sweep\<close> run on the list \<open>ips\<close>\<close>

record env =
  arp_runs :: "nat \<Rightarrow> cmd_result"
    \<comment> \<open>the outcome of the first (0) and of the second (1) run of \<open>arp -a\<close>\<close>
  ipconfig_run :: cmd_result
  netifaces_state :: netifaces

definition get_local_ipv4 :: "cmd_result \<Rightarrow> string option" where
  \<comment> \<open>lines 70 to 79\<close>
  "get_local_ipv4 run =
     (case run of
        Failed \<Rightarrow> None
      | Completed out \<Rightarrow> search ipconfig_pattern out)"

definition ping_sweep :: "sweep_arg \<Rightarrow> event list" where
  \<comment> \<open>\<open>ping_sweep\<close> as a whole: nothing happens when it returns at line 93\<close>
  "ping_sweep prefix_or_ip =
     (case ping_sweep_ips prefix_or_ip of
        None \<Rightarrow> []
      | Some ips \<Rightarrow> [Sweep ips])"

fun report_loop :: "nat \<Rightarrow> match list \<Rightarrow> string list" where
  \<comment> \<open>lines 228 and 229, from the number \<open>i\<close> on\<close>
  "report_loop i [] = []"
| "report_loop i ((device, ip, mac) # ms) =
     (str_nat i @ ''. '' @ device @ '' '' @ ip @ '' '' @ mac) # report_loop (Suc i) ms"

definition report :: "match list \<Rightarrow> string list" where
  \<comment> \<open>lines 225 to 229: the lines printed\<close>
  "report ms =
     (if ms = [] then [''No matches found for configured MAC prefixes'']
      else report_loop 1 ms)"

record outcome =
  printed :: "string list"
  events :: "event list"

definition main :: "env \<Rightarrow> outcome" where
  \<comment> \<open>lines 38 to 229: what the run prints and, in order, the commands and sweeps
      it performs\<close>
  "main e =
     (let entries = get_arp_entries (arp_runs e 0);
          ms = find_matches mac_device_map entries
      in if ms = [] then
           (let local_ip = get_local_ipv4 (ipconfig_run e);
                swept = (case local_ip of
                           None \<Rightarrow> ping_sweep (ArgStr ''192.168.1'')
                         | Some ip \<Rightarrow>
                             if ip \<noteq> [] then ping_sweep (ArgStr ip)
                             else ping_sweep (ArgStr ''192.168.1''));
                entries' = get_arp_entries (arp_runs e 1);
                ms' = find_matches mac_device_map entries'
            in \<lparr>printed = report ms', events = [RunArp, RunIpconfig] @ swept @ [RunArp]\<rparr>)
         else \<lparr>printed = report ms, events = [RunArp]\<rparr>)"

section \<open>The worker pool (\<open>ping_sweep\<close>, lines 96 to 129)\<close>

text \<open>
  The sweep runs \<open>max_workers\<close> threads against one \<open>queue.Queue\<close>. Each operation
  on the queue is atomic (the queue holds its lock for it), so a run is an interleaving
  of the steps below: the main thread starts the workers one by one and then waits in
  \<open>q.join()\<close>; a worker repeats \<open>get_nowait\<close>, \<open>_ping\<close>, \<open>task_done\<close> until
  \<open>get_nowait\<close> finds the queue empty.
\<close>

datatype worker =
  Ready
    \<comment> \<open>at the top of the loop of line 109, before \<open>q.get_nowait()\<close>\<close>
| Holding string
    \<comment> \<open>\<open>get_nowait\<close> has returned this target, \<open>_ping\<close> has not yet run the command\<close>
| Pinged
    \<comment> \<open>\<open>_ping\<close> is over (whatever its outcome: line 102 swallows every exception),
        \<open>q.task_done()\<close> is still to come\<close>
| Exited
    \<comment> \<open>the thread is over\<close>

record pool =
  queue :: "string list"
    \<comment> \<open>the items of \<open>q\<close>, oldest first\<close>
  unfinished :: nat
    \<comment> \<open>\<open>q.unfinished_tasks\<close>\<close>
  workers :: "worker list"
    \<comment> \<open>the threads started so far\<close>
  max_workers :: nat
  pinged :: "string list"
    \<comment> \<open>the targets the ping command was run against, in order\<close>
  returned :: bool
    \<comment> \<open>\<open>q.join()\<close> has returned\<close>

definition init_pool :: "string list \<Rightarrow> pool" where
  \<comment> \<open>the state after lines 104 to 106 and 119 to 120: every target put, no thread yet\<close>
  "init_pool ips =
     \<lparr>queue = ips, unfinished = length ips, workers = [],
      max_workers = min 60 (length ips), pinged = [], returned = False\<rparr>"

inductive step :: "pool \<Rightarrow> pool \<Rightarrow> bool" where
  start:
    \<comment> \<open>lines 121 to 125: one more thread\<close>
    "length (workers s) < max_workers s
     \<Longrightarrow> step s (s\<lparr>workers := workers s @ [Ready]\<rparr>)"
| dequeue:
    \<comment> \<open>line 111, \<open>get_nowait\<close> on a queue that has an item\<close>
    "i < length (workers s) \<Longrightarrow> workers s ! i = Ready \<Longrightarrow> queue s = t # q
     \<Longrightarrow> step s (s\<lparr>queue := q, workers := (workers s)[i := Holding t]\<rparr>)"
| empty:
    \<comment> \<open>lines 112 and 113, \<open>get_nowait\<close> on the empty queue\<close>
    "i < length (workers s) \<Longrightarrow> workers s ! i = Ready \<Longrightarrow> queue s = []
     \<Longrightarrow> step s (s\<lparr>workers := (workers s)[i := Exited]\<rparr>)"
| ping:
    \<comment> \<open>line 115, \<open>_ping(target)\<close>\<close>
    "i < length (workers s) \<Longrightarrow> workers s ! i = Holding t
     \<Longrightarrow> step s (s\<lparr>pinged := pinged s @ [t], workers := (workers s)[i := Pinged]\<rparr>)"
| task_done:
    \<comment> \<open>line 117, \<open>q.task_done()\<close>\<close>
    "i < length (workers s) \<Longrightarrow> workers s ! i = Pinged \<Longrightarrow> 0 < unfinished s
     \<Longrightarrow> step s (s\<lparr>unfinished := unfinished s - 1, workers := (workers s)[i := Ready]\<rparr>)"
| task_done_error:
    \<comment> \<open>line 117 when nothing is unfinished: \<open>task_done\<close> raises \<open>ValueError\<close>, which
        ends the thread\<close>
    "i < length (workers s) \<Longrightarrow> workers s ! i = Pinged \<Longrightarrow> unfinished s = 0
     \<Longrightarrow> step s (s\<lparr>workers := (workers s)[i := Exited]\<rparr>)"
| join:
    \<comment> \<open>line 127: once every thread is started, \<open>q.join()\<close> returns when nothing is
        unfinished\<close>
    "length (workers s) = max_workers s \<Longrightarrow> unfinished s = 0 \<Longrightarrow> \<not> returned s
     \<Longrightarrow> step s (s\<lparr>returned := True\<rparr>)"

definition reachable :: "string list \<Rightarrow> pool \<Rightarrow> bool" where
  \<comment> \<open>the states a sweep over \<open>ips\<close> can be in\<close>
  "reachable ips s = step\<^sup>*\<^sup>* (init_pool ips) s"

fun held :: "worker list \<Rightarrow> string list" where
  \<comment> \<open>the targets taken from the queue and not yet pinged\<close>
  "held [] = []"
| "held (Holding t # ws) = t # held ws"
| "held (w # ws) = held ws"

definition in_flight :: "worker list \<Rightarrow> nat" where
  \<comment> \<open>the workers between \<open>get_nowait\<close> and \<open>task_done\<close>\<close>
  "in_flight ws = length (filter (\<lambda>w. w = Pinged \<or> (\<exists>t. w = Holding t)) ws)"

section \<open>Shapes of text\<close>

text \<open>
  What the patterns accept, said without the matching engine: these predicates are the
  yardstick the matchers above are measured against.
\<close>

definition digits :: "string \<Rightarrow> bool" where
  \<comment> \<open>one or more decimal digits\<close>
  "digits s = (s \<noteq> [] \<and> list_all is_digit s)"

definition is_quad :: "string \<Rightarrow> bool" where
  \<comment> \<open>four groups of digits joined by dots\<close>
  "is_quad s =
     (\<exists>a b c d. s = a @ ''.'' @ b @ ''.'' @ c @ ''.'' @ d
        \<and> digits a \<and> digits b \<and> digits c \<and> digits d)"

definition mac_token :: "string \<Rightarrow> bool" where
  \<comment> \<open>14 to 17 characters, each a hexadecimal digit, a colon or a dash\<close>
  "mac_token t = (14 \<le> length t \<and> length t \<le> 17 \<and> list_all is_mac_char t)"

definition line_has_pair :: "string \<Rightarrow> bool" where
  \<comment> \<open>somewhere in the line: a dotted quad, white space, a MAC token\<close>
  "line_has_pair l =
     (\<exists>pre ip ws tok post. l = pre @ ip @ ws @ tok @ post
        \<and> is_quad ip \<and> ws \<noteq> [] \<and> list_all is_space ws \<and> mac_token tok)"

section \<open>Scenarios\<close>

definition no_netifaces :: netifaces where
  \<comment> \<open>every call into \<open>netifaces\<close> raises\<close>
  "no_netifaces = \<lparr>gateways_default = Raises, interfaces = Raises, ifaddresses = (\<lambda>n. Raises)\<rparr>"


definition scenario_a :: env where
  \<comment> \<open>the cache holds a Raspberry Pi\<close>
  "scenario_a =
     \<lparr>arp_runs = (\<lambda>n. Completed ''  192.168.1.10          28-cd-c1-aa-bb-cc     dynamic''),
      ipconfig_run = Completed ''   IPv4 Address. . . . . . . . . . . : 192.168.1.50'',
      netifaces_state = no_netifaces\<rparr>"

definition scenario_c :: env where
  \<comment> \<open>nothing can be run and no interface is known\<close>
  "scenario_c =
     \<lparr>arp_runs = (\<lambda>n. Failed), ipconfig_run = Failed, netifaces_state = no_netifaces\<rparr>"



definition header_only :: string where
  \<comment> \<open>what \<open>arp -a\<close> prints for an interface with no neighbours\<close>
  "header_only =
     ''Interface: 192.168.1.5 --- 0x3'' @ [CHR 0x0A]
     @ ''  Internet Address      Physical Address      Type'' @ [CHR 0x0A]"

section \<open>Normalisation and matching\<close>

lemma is_hex_not_sep: "is_hex c \<Longrightarrow> c \<noteq> CHR '':'' \<and> c \<noteq> CHR ''-''"
  by (auto simp: is_hex_def)

lemma norm_mac_strip_sep: "norm_mac (strip_sep s) = norm_mac s"
proof -
  have "filter is_hex (strip_sep s) = filter is_hex s"
    unfolding strip_sep_def filter_filter
    by (rule filter_cong) (auto dest: is_hex_not_sep)
  then show ?thesis by (simp add: norm_mac_def)
qed

lemma lower_char_hex: "is_hex c \<Longrightarrow> lower_char c \<in> set ''0123456789abcdef''"
  by (auto simp: is_hex_def lower_char_def char_of_eq_iff)

lemma lower_char_fixed: "c \<in> set ''0123456789abcdef'' \<Longrightarrow> lower_char c = c"
  by (auto simp: lower_char_def)

lemma norm_mac_chars: "set (norm_mac s) \<subseteq> set ''0123456789abcdef''"
  unfolding norm_mac_def lower_def using lower_char_hex by fastforce

lemma norm_mac_fixed:
  assumes "set s \<subseteq> set ''0123456789abcdef''"
  shows "norm_mac s = s"
proof -
  have h: "\<And>c. c \<in> set s \<Longrightarrow> is_hex c \<and> lower_char c = c"
  proof -
    fix c assume "c \<in> set s"
    with assms have m: "c \<in> set ''0123456789abcdef''" by blast
    then have "is_hex c" by (auto simp: is_hex_def)
    with m show "is_hex c \<and> lower_char c = c" by (simp only: lower_char_fixed)
  qed
  then have "filter is_hex s = s" by (simp add: filter_id_conv)
  moreover have "map lower_char s = s" using h by (simp add: map_idI)
  ultimately show ?thesis by (simp add: norm_mac_def lower_def)
qed

text \<open>
  Claim C5. Matching is the \<open>startswith\<close> test on the normalised strings; normalising
  keeps exactly the hexadecimal characters of its argument, in lower case (so its result
  is made of lower-case hexadecimal digits and normalising again changes nothing), and a
  separator is never one of them. Hence replacing the observed MAC and the configured
  prefix by strings that differ from them only in separator style leaves the outcome of
  \<open>matches\<close> unchanged.
\<close>

theorem matches_separator_invariant:
  "(strip_sep m = strip_sep m' \<and> strip_sep p = strip_sep p' \<longrightarrow> matches m p = matches m' p')
   \<and> matches m p = prefix (norm_mac p) (norm_mac m)
   \<and> norm_mac s = map lower_char (filter is_hex s)
   \<and> set (norm_mac s) \<subseteq> set ''0123456789abcdef''
   \<and> norm_mac (norm_mac s) = norm_mac s"
proof -
  have a: "strip_sep m = strip_sep m' \<and> strip_sep p = strip_sep p' \<longrightarrow> matches m p = matches m' p'"
  proof
    assume h: "strip_sep m = strip_sep m' \<and> strip_sep p = strip_sep p'"
    have "norm_mac m = norm_mac m'"
      using h norm_mac_strip_sep [of m] norm_mac_strip_sep [of m'] by simp
    moreover have "norm_mac p = norm_mac p'"
      using h norm_mac_strip_sep [of p] norm_mac_strip_sep [of p'] by simp
    ultimately show "matches m p = matches m' p'" by (simp add: matches_def)
  qed
  have b: "norm_mac (norm_mac s) = norm_mac s"
    by (rule norm_mac_fixed) (rule norm_mac_chars)
  show ?thesis
    using a b norm_mac_chars [of s] by (simp add: matches_def norm_mac_def lower_def)
qed

theorem matches_separator_invariant_witness:
  "strip_sep ''28:CD:C1:aa:bb:cc'' = strip_sep ''28-CD-C1-aa-bb-cc''
   \<and> strip_sep ''28:cd:c1'' = strip_sep ''28cdc1''
   \<and> matches ''28:CD:C1:aa:bb:cc'' ''28:cd:c1''
   \<and> matches ''28-CD-C1-aa-bb-cc'' ''28cdc1''
   \<and> norm_mac ''28-CD-C1-aa-bb-cc'' = ''28cdc1aabbcc''"
proof -
  have s1: "strip_sep ''28:CD:C1:aa:bb:cc'' = strip_sep ''28-CD-C1-aa-bb-cc''"
    by (simp add: strip_sep_def)
  have s2: "strip_sep ''28:cd:c1'' = strip_sep ''28cdc1''"
    by (simp add: strip_sep_def)
  have n: "norm_mac ''28-CD-C1-aa-bb-cc'' = ''28cdc1aabbcc''"
    by (simp add: norm_mac_def lower_def is_hex_def lower_char_def char_of_eq_iff)
  have m: "matches ''28-CD-C1-aa-bb-cc'' ''28cdc1''"
    by (simp add: matches_def n) (simp add: norm_mac_def lower_def is_hex_def lower_char_def)
  have "matches ''28:CD:C1:aa:bb:cc'' ''28:cd:c1'' = matches ''28-CD-C1-aa-bb-cc'' ''28cdc1''"
    using matches_separator_invariant
      [of "''28:CD:C1:aa:bb:cc''" "''28-CD-C1-aa-bb-cc''" "''28:cd:c1''" "''28cdc1''"]
      s1 s2 by blast
  with m s1 s2 n show ?thesis by simp
qed

section \<open>First match wins\<close>

lemma rule_loop_find:
  "rule_loop rules (norm_mac mac) ip mac ms =
     (case find (\<lambda>r. matches mac (fst r)) rules of
        None \<Rightarrow> ms
      | Some r \<Rightarrow> ms @ [(snd r, ip, mac)])"
  by (induction rules) (auto simp: matches_def)

lemma find_first_index:
  assumes "i < length xs" and "P (xs ! i)" and "\<forall>j<i. \<not> P (xs ! j)"
  shows "find P xs = Some (xs ! i)"
  using assms
proof (induction xs arbitrary: i)
  case Nil
  then show ?case by simp
next
  case (Cons x xs)
  show ?case
  proof (cases i)
    case 0
    with Cons.prems show ?thesis by simp
  next
    case (Suc k)
    have "\<not> P x" using Cons.prems(3) Suc by auto
    moreover have "find P xs = Some (xs ! k)"
    proof (rule Cons.IH)
      show "k < length xs" using Cons.prems(1) Suc by simp
      show "P (xs ! k)" using Cons.prems(2) Suc by simp
      show "\<forall>j<k. \<not> P (xs ! j)"
      proof (intro allI impI)
        fix j assume "j < k"
        then have "Suc j < i" using Suc by simp
        with Cons.prems(3) have "\<not> P ((x # xs) ! Suc j)" by blast
        then show "\<not> P (xs ! j)" by simp
      qed
    qed
    ultimately show ?thesis using Suc by simp
  qed
qed

lemma entry_loop_append:
  "entry_loop rules es ms = ms @ entry_loop rules es []"
proof (induction es arbitrary: ms)
  case Nil
  then show ?case by simp
next
  case (Cons e es)
  obtain ip mac where e: "e = (ip, mac)" by (cases e)
  have r: "\<And>acc. rule_loop rules (norm_mac mac) ip mac acc
             = acc @ rule_loop rules (norm_mac mac) ip mac []"
    by (simp add: rule_loop_find split: option.splits)
  have "entry_loop rules (e # es) ms
          = rule_loop rules (norm_mac mac) ip mac ms @ entry_loop rules es []"
    using Cons.IH [of "rule_loop rules (norm_mac mac) ip mac ms"] by (simp add: e)
  also have "\<dots> = ms @ rule_loop rules (norm_mac mac) ip mac [] @ entry_loop rules es []"
    using r [of ms] by simp
  also have "rule_loop rules (norm_mac mac) ip mac [] @ entry_loop rules es []
               = entry_loop rules (e # es) []"
    using Cons.IH [of "rule_loop rules (norm_mac mac) ip mac []"] by (simp add: e)
  finally show ?case .
qed

lemma find_matches_Cons:
  "find_matches rules ((ip, mac) # es)
     = rule_loop rules (norm_mac mac) ip mac [] @ find_matches rules es"
  unfolding find_matches_def
  using entry_loop_append [of rules es "rule_loop rules (norm_mac mac) ip mac []"] by simp

lemma find_matches_Nil: "find_matches rules [] = []"
  by (simp add: find_matches_def)

lemma find_matches_append:
  "find_matches rules (es @ fs) = find_matches rules es @ find_matches rules fs"
proof (induction es)
  case Nil
  then show ?case by (simp add: find_matches_Nil)
next
  case (Cons e es)
  obtain ip mac where e: "e = (ip, mac)" by (cases e)
  show ?case using Cons.IH by (simp add: e find_matches_Cons)
qed

text \<open>
  Claim C4. The rules are tried in the order they are declared in. For an entry
  \<open>(ip, mac)\<close>: when rule number \<open>i\<close> matches the MAC and no earlier rule does, the
  entry contributes exactly the one result carrying the label of rule \<open>i\<close>, whatever the
  later rules are (several of them may match too); when no rule matches, the entry
  contributes nothing. The match list of a whole table is the concatenation of these
  contributions in table order.
\<close>

theorem classify_first_match:
  "(i < length rules \<and> matches mac (fst (rules ! i))
      \<and> (\<forall>j<i. \<not> matches mac (fst (rules ! j)))
      \<longrightarrow> find_matches rules [(ip, mac)] = [(snd (rules ! i), ip, mac)])
   \<and> ((\<forall>r\<in>set rules. \<not> matches mac (fst r)) \<longrightarrow> find_matches rules [(ip, mac)] = [])
   \<and> find_matches rules ((ip, mac) # es)
         = find_matches rules [(ip, mac)] @ find_matches rules es"
proof -
  have one: "find_matches rules [(ip, mac)] = rule_loop rules (norm_mac mac) ip mac []"
    by (simp add: find_matches_def)
  have a: "i < length rules \<and> matches mac (fst (rules ! i))
             \<and> (\<forall>j<i. \<not> matches mac (fst (rules ! j)))
           \<longrightarrow> find_matches rules [(ip, mac)] = [(snd (rules ! i), ip, mac)]"
  proof
    assume h: "i < length rules \<and> matches mac (fst (rules ! i))
                 \<and> (\<forall>j<i. \<not> matches mac (fst (rules ! j)))"
    have "find (\<lambda>r. matches mac (fst r)) rules = Some (rules ! i)"
      by (rule find_first_index) (use h in auto)
    then show "find_matches rules [(ip, mac)] = [(snd (rules ! i), ip, mac)]"
      by (simp add: one rule_loop_find)
  qed
  have b: "(\<forall>r\<in>set rules. \<not> matches mac (fst r)) \<longrightarrow> find_matches rules [(ip, mac)] = []"
  proof
    assume "\<forall>r\<in>set rules. \<not> matches mac (fst r)"
    then have "find (\<lambda>r. matches mac (fst r)) rules = None"
      unfolding find_None_iff by blast
    then show "find_matches rules [(ip, mac)] = []"
      by (simp add: one rule_loop_find)
  qed
  have c: "find_matches rules ((ip, mac) # es)
             = find_matches rules [(ip, mac)] @ find_matches rules es"
    by (simp add: find_matches_Cons find_matches_Nil)
  show ?thesis using a b c by blast
qed

theorem classify_first_match_witness:
  "(1::nat) < length [(''aa:bb'', ''First''), (''28:cd'', ''Second''), (''28:cd:c1'', ''Third'')]
   \<and> matches ''28-CD-C1-00-11-22'' ''28:cd''
   \<and> matches ''28-CD-C1-00-11-22'' ''28:cd:c1''
   \<and> \<not> matches ''28-CD-C1-00-11-22'' ''aa:bb''
   \<and> find_matches [(''aa:bb'', ''First''), (''28:cd'', ''Second''), (''28:cd:c1'', ''Third'')]
         [(''10.0.0.7'', ''28-CD-C1-00-11-22'')]
       = [(''Second'', ''10.0.0.7'', ''28-CD-C1-00-11-22'')]
   \<and> \<not> (\<exists>r\<in>set mac_device_map. matches ''00:11:22:33:44:55'' (fst r))
   \<and> find_matches mac_device_map [(''10.0.0.8'', ''00:11:22:33:44:55'')] = []"
proof -
  let ?rules = "[(''aa:bb'', ''First''), (''28:cd'', ''Second''), (''28:cd:c1'', ''Third'')]"
  let ?mac = "''28-CD-C1-00-11-22''"
  have n: "norm_mac ?mac = ''28cdc1001122''"
    by (simp add: norm_mac_def lower_def is_hex_def lower_char_def char_of_eq_iff)
  have m1: "matches ?mac ''28:cd''"
    by (simp add: matches_def n) (simp add: norm_mac_def lower_def is_hex_def lower_char_def)
  have m2: "matches ?mac ''28:cd:c1''"
    by (simp add: matches_def n) (simp add: norm_mac_def lower_def is_hex_def lower_char_def)
  have m0: "\<not> matches ?mac ''aa:bb''"
    by (simp add: matches_def n) (simp add: norm_mac_def lower_def is_hex_def lower_char_def)
  have pre: "(1::nat) < length ?rules \<and> matches ?mac (fst (?rules ! 1))
               \<and> (\<forall>j<(1::nat). \<not> matches ?mac (fst (?rules ! j)))"
    using m1 m0 by simp
  have none: "\<forall>r\<in>set mac_device_map. \<not> matches ''00:11:22:33:44:55'' (fst r)"
    by (simp add: mac_device_map_def matches_def norm_mac_def lower_def is_hex_def
        lower_char_def)
  have first: "find_matches ?rules [(''10.0.0.7'', ?mac)] = [(''Second'', ''10.0.0.7'', ?mac)]"
    using classify_first_match [of 1 ?rules ?mac "''10.0.0.7''" "[]"] pre by simp
  have empty: "find_matches mac_device_map [(''10.0.0.8'', ''00:11:22:33:44:55'')] = []"
    using classify_first_match [of 0 mac_device_map "''00:11:22:33:44:55''" "''10.0.0.8''" "[]"]
      none by simp
  show ?thesis using m1 m2 m0 first empty none by simp
qed

section \<open>Arguments of the sweep\<close>

text \<open>
  Claim C10. A string whose split at the dots has neither three nor four parts makes
  \<open>ping_sweep\<close> return at once: no list of targets is built and nothing is swept.
  A sweep that does take place comes from a string of three parts (swept as the prefix
  it is), from a string of four parts (swept under its first three) or from a list.
\<close>

theorem ping_sweep_other_strings:
  "(length (split_on CHR ''.'' s) \<noteq> 3 \<and> length (split_on CHR ''.'' s) \<noteq> 4
      \<longrightarrow> ping_sweep_ips (ArgStr s) = None \<and> ping_sweep (ArgStr s) = [])
   \<and> (ping_sweep (ArgStr s) \<noteq> []
      \<longrightarrow> length (split_on CHR ''.'' s) = 3 \<or> length (split_on CHR ''.'' s) = 4)
   \<and> (length (split_on CHR ''.'' s) = 3 \<longrightarrow> ping_sweep (ArgStr s) = [Sweep (slash24 s)])
   \<and> (length (split_on CHR ''.'' s) = 4
      \<longrightarrow> ping_sweep (ArgStr s)
          = [Sweep (slash24 (join_on ''.'' (take 3 (split_on CHR ''.'' s))))])
   \<and> ping_sweep (ArgList ips) = [Sweep ips]"
  by (simp add: ping_sweep_def ping_sweep_ips_def Let_def)

theorem ping_sweep_other_strings_witness:
  "length (split_on CHR ''.'' '''') = 1 \<and> ping_sweep (ArgStr '''') = []
   \<and> length (split_on CHR ''.'' ''router.lan'') = 2 \<and> ping_sweep (ArgStr ''router.lan'') = []
   \<and> length (split_on CHR ''.'' ''10.0.0.1.9'') = 5 \<and> ping_sweep (ArgStr ''10.0.0.1.9'') = []
   \<and> length (split_on CHR ''.'' ''192.168.1'') = 3
   \<and> ping_sweep (ArgStr ''192.168.1'') = [Sweep (slash24 ''192.168.1'')]
   \<and> length (split_on CHR ''.'' ''10.0.5.77'') = 4
   \<and> ping_sweep (ArgStr ''10.0.5.77'') = [Sweep (slash24 ''10.0.5'')]"
proof -
  have a: "length (split_on CHR ''.'' '''') = 1" by simp
  have b: "length (split_on CHR ''.'' ''router.lan'') = 2" by simp
  have c: "length (split_on CHR ''.'' ''10.0.0.1.9'') = 5" by simp
  have d: "length (split_on CHR ''.'' ''192.168.1'') = 3" by simp
  have e: "split_on CHR ''.'' ''10.0.5.77'' = [''10'', ''0'', ''5'', ''77'']" by simp
  show ?thesis
    using a b c d e
      ping_sweep_other_strings [of "''''"] ping_sweep_other_strings [of "''router.lan''"]
      ping_sweep_other_strings [of "''10.0.0.1.9''"] ping_sweep_other_strings [of "''192.168.1''"]
      ping_sweep_other_strings [of "''10.0.5.77''"]
    by simp
qed

section \<open>The two phases of a run\<close>

lemma ping_sweep_le_1: "length (ping_sweep a) \<le> 1"
  by (simp add: ping_sweep_def split: option.splits)

text \<open>
  Claim C9. When the first reading of the neighbour cache gives a match, the run performs
  that one reading and nothing else (no \<open>ipconfig\<close>, no sweep, no second reading) and
  prints the matches. Otherwise it reads the cache exactly twice, with one \<open>ipconfig\<close>
  and at most one sweep in between, so a run never sweeps twice. Every run ends with a
  printed report; when the last match list is empty, the report is the no-match line.
\<close>

theorem active_phase_only_when_no_match:
  "(find_matches mac_device_map (get_arp_entries (arp_runs e 0)) \<noteq> []
      \<longrightarrow> events (main e) = [RunArp]
        \<and> printed (main e) = report (find_matches mac_device_map (get_arp_entries (arp_runs e 0))))
   \<and> (find_matches mac_device_map (get_arp_entries (arp_runs e 0)) = []
      \<longrightarrow> (\<exists>swept. events (main e) = [RunArp, RunIpconfig] @ swept @ [RunArp]
                   \<and> length swept \<le> 1 \<and> RunArp \<notin> set swept \<and> RunIpconfig \<notin> set swept)
        \<and> printed (main e) = report (find_matches mac_device_map (get_arp_entries (arp_runs e 1))))
   \<and> length (filter (\<lambda>ev. ev \<noteq> RunArp \<and> ev \<noteq> RunIpconfig) (events (main e))) \<le> 1
   \<and> length (filter (\<lambda>ev. ev = RunIpconfig) (events (main e))) \<le> 1
   \<and> report [] = [''No matches found for configured MAC prefixes'']
   \<and> printed (main e) \<noteq> []"
proof -
  let ?ms = "find_matches mac_device_map (get_arp_entries (arp_runs e 0))"
  let ?ms' = "find_matches mac_device_map (get_arp_entries (arp_runs e 1))"
  define swept where
    "swept = (case get_local_ipv4 (ipconfig_run e) of
                None \<Rightarrow> ping_sweep (ArgStr ''192.168.1'')
              | Some ip \<Rightarrow> if ip \<noteq> [] then ping_sweep (ArgStr ip)
                           else ping_sweep (ArgStr ''192.168.1''))"
  have sw: "length swept \<le> 1 \<and> RunArp \<notin> set swept \<and> RunIpconfig \<notin> set swept"
    by (auto simp: swept_def ping_sweep_def split: option.splits)
  have rep: "\<And>ms. report ms \<noteq> []"
  proof -
    fix ms :: "match list"
    show "report ms \<noteq> []"
    proof (cases ms)
      case Nil
      then show ?thesis by (simp add: report_def)
    next
      case (Cons m rest)
      obtain d i a where "m = (d, i, a)" by (cases m)
      with Cons show ?thesis by (simp add: report_def)
    qed
  qed
  have pas: "?ms \<noteq> [] \<longrightarrow> events (main e) = [RunArp] \<and> printed (main e) = report ?ms"
    by (simp add: main_def Let_def)
  have active_ev: "?ms = [] \<longrightarrow> events (main e) = [RunArp, RunIpconfig] @ swept @ [RunArp]"
    by (simp add: main_def Let_def swept_def)
  have active_pr: "?ms = [] \<longrightarrow> printed (main e) = report ?ms'"
    by (simp add: main_def Let_def)
  have actv: "?ms = [] \<longrightarrow>
      (\<exists>swept. events (main e) = [RunArp, RunIpconfig] @ swept @ [RunArp]
          \<and> length swept \<le> 1 \<and> RunArp \<notin> set swept \<and> RunIpconfig \<notin> set swept)
      \<and> printed (main e) = report ?ms'"
    using active_ev active_pr sw by blast
  have filt: "filter (\<lambda>ev. ev \<noteq> RunArp \<and> ev \<noteq> RunIpconfig) swept = swept"
    unfolding filter_id_conv using sw by blast
  have one: "length (filter (\<lambda>ev. ev \<noteq> RunArp \<and> ev \<noteq> RunIpconfig) (events (main e))) \<le> 1"
  proof (cases "?ms = []")
    case True
    then have "events (main e) = [RunArp, RunIpconfig] @ swept @ [RunArp]"
      using active_ev by blast
    then show ?thesis using filt sw by simp
  next
    case False
    then show ?thesis using pas by simp
  qed
  have nofilt: "filter (\<lambda>ev. ev = RunIpconfig) swept = []"
    unfolding filter_empty_conv using sw by blast
  have ipc: "length (filter (\<lambda>ev. ev = RunIpconfig) (events (main e))) \<le> 1"
  proof (cases "?ms = []")
    case True
    then have "events (main e) = [RunArp, RunIpconfig] @ swept @ [RunArp]"
      using active_ev by blast
    then show ?thesis using nofilt by simp
  next
    case False
    then show ?thesis using pas by simp
  qed
  have pr: "printed (main e) \<noteq> []"
    using pas active_pr rep by (cases "?ms = []") auto
  have nomatch: "report [] = [''No matches found for configured MAC prefixes'']"
    by (simp add: report_def)
  show ?thesis using pas actv one ipc nomatch pr by blast
qed


section \<open>What the matchers accept\<close>

lemma takeWhile_take_iff:
  "k \<le> length (takeWhile P s) \<longleftrightarrow> k \<le> length s \<and> list_all P (take k s)"
proof (induction s arbitrary: k)
  case Nil
  then show ?case by simp
next
  case (Cons x xs)
  show ?case
  proof (cases k)
    case 0
    then show ?thesis by simp
  next
    case (Suc j)
    then show ?thesis using Cons.IH [of j] by simp
  qed
qed

lemma m_rep_iff:
  "(a, r) \<in> set (m_rep lo hi P s) \<longleftrightarrow>
     s = a @ r \<and> list_all P a \<and> lo \<le> length a
       \<and> (case hi of None \<Rightarrow> True | Some h \<Rightarrow> length a \<le> h)"
proof -
  define run where "run = length (takeWhile P s)"
  define top where "top = (case hi of None \<Rightarrow> run | Some h \<Rightarrow> min h run)"
  have set_eq: "set (m_rep lo hi P s) = (\<lambda>k. (take k s, drop k s)) ` {k. lo \<le> k \<and> k \<le> top}"
    unfolding m_rep_def Let_def run_def [symmetric] top_def [symmetric] by auto
  have top_iff: "\<And>k. k \<le> top \<longleftrightarrow> k \<le> run \<and> (case hi of None \<Rightarrow> True | Some h \<Rightarrow> k \<le> h)"
    unfolding top_def by (cases hi) auto
  show ?thesis
  proof
    assume "(a, r) \<in> set (m_rep lo hi P s)"
    then obtain k where k: "a = take k s" "r = drop k s" "lo \<le> k" "k \<le> top"
      unfolding set_eq by auto
    from k(4) have kr: "k \<le> run" and kh: "case hi of None \<Rightarrow> True | Some h \<Rightarrow> k \<le> h"
      using top_iff [of k] by simp_all
    from kr have ks: "k \<le> length s" and all: "list_all P (take k s)"
      unfolding run_def takeWhile_take_iff by simp_all
    have len: "length a = k" using k(1) ks by simp
    have "s = a @ r" using k(1,2) by simp
    moreover have "list_all P a" using all k(1) by simp
    moreover have "lo \<le> length a" using k(3) len by simp
    moreover have "case hi of None \<Rightarrow> True | Some h \<Rightarrow> length a \<le> h"
      using kh unfolding len .
    ultimately show "s = a @ r \<and> list_all P a \<and> lo \<le> length a
            \<and> (case hi of None \<Rightarrow> True | Some h \<Rightarrow> length a \<le> h)"
      by blast
  next
    assume h: "s = a @ r \<and> list_all P a \<and> lo \<le> length a
                 \<and> (case hi of None \<Rightarrow> True | Some h \<Rightarrow> length a \<le> h)"
    define k where "k = length a"
    have tk: "take k s = a" and dk: "drop k s = r" using h by (simp_all add: k_def)
    have "k \<le> length s \<and> list_all P (take k s)" using h tk by (simp add: k_def)
    then have "k \<le> run" unfolding run_def takeWhile_take_iff .
    moreover have "case hi of None \<Rightarrow> True | Some h \<Rightarrow> k \<le> h"
      unfolding k_def using h by blast
    ultimately have "k \<le> top" using top_iff [of k] by simp
    moreover have "lo \<le> k" using h by (simp add: k_def)
    ultimately have "(take k s, drop k s) \<in> (\<lambda>k. (take k s, drop k s)) ` {k. lo \<le> k \<and> k \<le> top}"
      by blast
    then show "(a, r) \<in> set (m_rep lo hi P s)" unfolding set_eq tk dk .
  qed
qed

lemma m_lit_iff: "(a, r) \<in> set (m_lit l s) \<longleftrightarrow> a = l \<and> s = l @ r"
  by (auto simp: m_lit_def prefix_def)

lemma m_seq_iff:
  "(x, r') \<in> set (m_seq p q s) \<longleftrightarrow>
     (\<exists>a b r. x = a @ b \<and> (a, r) \<in> set (p s) \<and> (b, r') \<in> set (q r))"
  unfolding m_seq_def by force

lemma dot_digits_iff:
  "(x, r) \<in> set (m_seq (m_lit ''.'') (m_rep 1 None is_digit) s) \<longleftrightarrow>
     (\<exists>b. x = ''.'' @ b \<and> digits b \<and> s = x @ r)"
  unfolding m_seq_iff m_lit_iff m_rep_iff digits_def
  by (auto simp: Suc_le_eq)

lemma digits_iff:
  "(x, r) \<in> set (m_rep 1 None is_digit s) \<longleftrightarrow> digits x \<and> s = x @ r"
  unfolding m_rep_iff digits_def by (auto simp: Suc_le_eq)

lemma dotted_quad_iff:
  "(x, r) \<in> set (dotted_quad s) \<longleftrightarrow> is_quad x \<and> s = x @ r"
proof
  assume "(x, r) \<in> set (dotted_quad s)"
  then obtain a r1 t1 where 1: "x = a @ t1" "(a, r1) \<in> set (m_rep 1 None is_digit s)"
      "(t1, r) \<in> set (m_seq (m_seq (m_lit ''.'') (m_rep 1 None is_digit))
          (m_seq (m_seq (m_lit ''.'') (m_rep 1 None is_digit))
             (m_seq (m_lit ''.'') (m_rep 1 None is_digit))) r1)"
    unfolding dotted_quad_def m_seq_iff [of x r "m_rep 1 None is_digit"] by blast
  from 1(3) obtain b' r2 t2 where 2: "t1 = b' @ t2"
      "(b', r2) \<in> set (m_seq (m_lit ''.'') (m_rep 1 None is_digit) r1)"
      "(t2, r) \<in> set (m_seq (m_seq (m_lit ''.'') (m_rep 1 None is_digit))
             (m_seq (m_lit ''.'') (m_rep 1 None is_digit)) r2)"
    unfolding m_seq_iff [of t1 r "m_seq (m_lit ''.'') (m_rep 1 None is_digit)"] by blast
  from 2(3) obtain c' r3 d' where 3: "t2 = c' @ d'"
      "(c', r3) \<in> set (m_seq (m_lit ''.'') (m_rep 1 None is_digit) r2)"
      "(d', r) \<in> set (m_seq (m_lit ''.'') (m_rep 1 None is_digit) r3)"
    unfolding m_seq_iff [of t2 r "m_seq (m_lit ''.'') (m_rep 1 None is_digit)"] by blast
  from 1(2) have a: "digits a" "s = a @ r1" unfolding digits_iff by simp_all
  from 2(2) obtain b where b: "b' = ''.'' @ b" "digits b" "r1 = b' @ r2"
    unfolding dot_digits_iff by blast
  from 3(2) obtain c where c: "c' = ''.'' @ c" "digits c" "r2 = c' @ r3"
    unfolding dot_digits_iff by blast
  from 3(3) obtain d where d: "d' = ''.'' @ d" "digits d" "r3 = d' @ r"
    unfolding dot_digits_iff by blast
  have "x = a @ ''.'' @ b @ ''.'' @ c @ ''.'' @ d"
    using 1(1) 2(1) 3(1) b(1) c(1) d(1) by simp
  then have "is_quad x" unfolding is_quad_def using a(1) b(2) c(2) d(2) by blast
  moreover have "s = x @ r"
    using 1(1) 2(1) 3(1) a(2) b(3) c(3) d(3) by simp
  ultimately show "is_quad x \<and> s = x @ r" by blast
next
  assume h: "is_quad x \<and> s = x @ r"
  then obtain a b c d where q: "x = a @ ''.'' @ b @ ''.'' @ c @ ''.'' @ d"
      "digits a" "digits b" "digits c" "digits d"
    unfolding is_quad_def by blast
  let ?dd = "m_seq (m_lit ''.'') (m_rep 1 None is_digit)"
  have s: "s = a @ ''.'' @ b @ ''.'' @ c @ ''.'' @ d @ r" using h q(1) by simp
  have 1: "(a, ''.'' @ b @ ''.'' @ c @ ''.'' @ d @ r) \<in> set (m_rep 1 None is_digit s)"
    unfolding digits_iff using q(2) s by simp
  have 2: "(''.'' @ b, ''.'' @ c @ ''.'' @ d @ r) \<in> set (?dd (''.'' @ b @ ''.'' @ c @ ''.'' @ d @ r))"
    unfolding dot_digits_iff using q(3) by simp
  have 3: "(''.'' @ c, ''.'' @ d @ r) \<in> set (?dd (''.'' @ c @ ''.'' @ d @ r))"
    unfolding dot_digits_iff using q(4) by simp
  have 4: "(''.'' @ d, r) \<in> set (?dd (''.'' @ d @ r))"
    unfolding dot_digits_iff using q(5) by simp
  have 34: "((''.'' @ c) @ (''.'' @ d), r) \<in> set (m_seq ?dd ?dd (''.'' @ c @ ''.'' @ d @ r))"
    unfolding m_seq_iff [of _ r ?dd ?dd] using 3 4 by blast
  have 234: "((''.'' @ b) @ ((''.'' @ c) @ (''.'' @ d)), r)
               \<in> set (m_seq ?dd (m_seq ?dd ?dd) (''.'' @ b @ ''.'' @ c @ ''.'' @ d @ r))"
    unfolding m_seq_iff [of _ r ?dd "m_seq ?dd ?dd"] using 2 34 by blast
  have "(a @ ((''.'' @ b) @ ((''.'' @ c) @ (''.'' @ d))), r) \<in> set (dotted_quad s)"
    unfolding dotted_quad_def m_seq_iff [of _ r "m_rep 1 None is_digit"] using 1 234 by blast
  then show "(x, r) \<in> set (dotted_quad s)" using q(1) by simp
qed


lemma search_None_iff: "search m s = None \<longleftrightarrow> (\<forall>k\<le>length s. m (drop k s) = [])"
proof (induction s)
  case Nil
  then show ?case by (simp split: list.splits)
next
  case (Cons c cs)
  show ?case
  proof (cases "m (c # cs)")
    case Nil
    have "(\<forall>k\<le>length (c # cs). m (drop k (c # cs)) = []) \<longleftrightarrow> (\<forall>k\<le>length cs. m (drop k cs) = [])"
    proof
      assume a: "\<forall>k\<le>length (c # cs). m (drop k (c # cs)) = []"
      show "\<forall>k\<le>length cs. m (drop k cs) = []"
      proof (intro allI impI)
        fix k assume "k \<le> length cs"
        then have "m (drop (Suc k) (c # cs)) = []" using a by (metis Suc_le_mono length_Cons)
        then show "m (drop k cs) = []" by simp
      qed
    next
      assume a: "\<forall>k\<le>length cs. m (drop k cs) = []"
      show "\<forall>k\<le>length (c # cs). m (drop k (c # cs)) = []"
      proof (intro allI impI)
        fix k assume k: "k \<le> length (c # cs)"
        show "m (drop k (c # cs)) = []"
        proof (cases k)
          case 0
          then show ?thesis using Nil by simp
        next
          case (Suc j)
          then show ?thesis using a k by simp
        qed
      qed
    qed
    then show ?thesis using Nil Cons.IH by simp
  next
    case (Cons r rs)
    then have "search m (c # cs) \<noteq> None" by simp
    moreover have "\<not> (\<forall>k\<le>length (c # cs). m (drop k (c # cs)) = [])"
      using Cons by (metis drop0 le0 list.distinct(1))
    ultimately show ?thesis by blast
  qed
qed



lemma arp_pattern_iff:
  "(ip, tok) \<in> set (arp_pattern s) \<longleftrightarrow>
     (\<exists>ws post. s = ip @ ws @ tok @ post
        \<and> is_quad ip \<and> ws \<noteq> [] \<and> list_all is_space ws \<and> mac_token tok)"
proof -
  have "(ip, tok) \<in> set (arp_pattern s) \<longleftrightarrow>
          (\<exists>r1 ws r2 r3. (ip, r1) \<in> set (dotted_quad s)
             \<and> (ws, r2) \<in> set (m_rep 1 None is_space r1)
             \<and> (tok, r3) \<in> set (m_rep 14 (Some 17) is_mac_char r2))"
    unfolding arp_pattern_def by force
  also have "\<dots> \<longleftrightarrow> (\<exists>ws post. s = ip @ ws @ tok @ post
        \<and> is_quad ip \<and> ws \<noteq> [] \<and> list_all is_space ws \<and> mac_token tok)"
    unfolding dotted_quad_iff m_rep_iff mac_token_def
    by (auto simp: Suc_le_eq)
  finally show ?thesis .
qed

lemma line_has_pair_iff:
  "line_has_pair l \<longleftrightarrow> (\<exists>k\<le>length l. arp_pattern (drop k l) \<noteq> [])"
proof
  assume "line_has_pair l"
  then obtain pre ip ws tok post where h: "l = pre @ ip @ ws @ tok @ post"
      "is_quad ip" "ws \<noteq> []" "list_all is_space ws" "mac_token tok"
    unfolding line_has_pair_def by blast
  have "(ip, tok) \<in> set (arp_pattern (ip @ ws @ tok @ post))"
    unfolding arp_pattern_iff using h(2-5) by blast
  moreover have "drop (length pre) l = ip @ ws @ tok @ post" using h(1) by simp
  ultimately have "arp_pattern (drop (length pre) l) \<noteq> []" by auto
  moreover have "length pre \<le> length l" using h(1) by simp
  ultimately show "\<exists>k\<le>length l. arp_pattern (drop k l) \<noteq> []" by blast
next
  assume "\<exists>k\<le>length l. arp_pattern (drop k l) \<noteq> []"
  then obtain k x where k: "k \<le> length l" "x \<in> set (arp_pattern (drop k l))"
    by (metis last_in_set)
  obtain ip tok where x: "x = (ip, tok)" by (cases x)
  obtain ws post where h: "drop k l = ip @ ws @ tok @ post"
      "is_quad ip" "ws \<noteq> []" "list_all is_space ws" "mac_token tok"
    using k(2) unfolding x arp_pattern_iff by blast
  have "l = take k l @ ip @ ws @ tok @ post" using h(1) by (metis append_take_drop_id)
  then show "line_has_pair l" unfolding line_has_pair_def using h(2-5) by blast
qed

lemma search_arp_None_iff: "search arp_pattern l = None \<longleftrightarrow> \<not> line_has_pair l"
  unfolding search_None_iff line_has_pair_iff by blast





section \<open>Splitting at dots\<close>







theorem active_phase_only_when_no_match_witness:
  "find_matches mac_device_map (get_arp_entries (arp_runs scenario_a 0)) \<noteq> []
   \<and> events (main scenario_a) = [RunArp]
   \<and> printed (main scenario_a) = [''1. RaspberryPi 192.168.1.10 28:cd:c1:aa:bb:cc'']
   \<and> find_matches mac_device_map (get_arp_entries (arp_runs scenario_c 0)) = []
   \<and> events (main scenario_c) = [RunArp, RunIpconfig, Sweep (slash24 ''192.168.1''), RunArp]
   \<and> printed (main scenario_c) = [''No matches found for configured MAC prefixes'']"
proof -
  have a: "find_matches mac_device_map (get_arp_entries (arp_runs scenario_a 0))
             = [(''RaspberryPi'', ''192.168.1.10'', ''28:cd:c1:aa:bb:cc'')]"
    by code_simp
  have ra: "report [(''RaspberryPi'', ''192.168.1.10'', ''28:cd:c1:aa:bb:cc'')]
              = [''1. RaspberryPi 192.168.1.10 28:cd:c1:aa:bb:cc'']"
    by code_simp
  have c0: "find_matches mac_device_map (get_arp_entries (arp_runs scenario_c 0)) = []"
    by code_simp
  have c1: "find_matches mac_device_map (get_arp_entries (arp_runs scenario_c 1)) = []"
    by code_simp
  have ce: "events (main scenario_c) = [RunArp, RunIpconfig, Sweep (slash24 ''192.168.1''), RunArp]"
    by code_simp
  have "events (main scenario_a) = [RunArp]
        \<and> printed (main scenario_a) = [''1. RaspberryPi 192.168.1.10 28:cd:c1:aa:bb:cc'']"
    using active_phase_only_when_no_match [of scenario_a] a ra by simp
  moreover have "printed (main scenario_c) = [''No matches found for configured MAC prefixes'']"
    using active_phase_only_when_no_match [of scenario_c] c0 c1 by simp
  ultimately show ?thesis using a c0 ce by simp
qed

section \<open>Parsing the neighbour cache\<close>

lemma line_loop_acc: "line_loop ls acc = acc @ line_loop ls []"
proof (induction ls arbitrary: acc)
  case Nil
  then show ?case by simp
next
  case (Cons l ls)
  show ?case
  proof (cases "search arp_pattern l")
    case None
    then show ?thesis using Cons.IH [of acc] by simp
  next
    case (Some p)
    obtain ip tok where p: "p = (ip, tok)" by (cases p)
    let ?e = "(ip, replace_char CHR ''-'' CHR '':'' (lower tok))"
    have "line_loop (l # ls) acc = (acc @ [?e]) @ line_loop ls []"
      using Some p Cons.IH [of "acc @ [?e]"] by simp
    moreover have "line_loop (l # ls) [] = [?e] @ line_loop ls []"
      using Some p Cons.IH [of "[?e]"] by simp
    ultimately show ?thesis by simp
  qed
qed

lemma line_loop_Cons: "line_loop (l # ls) [] = line_loop [l] [] @ line_loop ls []"
proof (cases "search arp_pattern l")
  case None
  then show ?thesis by simp
next
  case (Some p)
  obtain ip tok where p: "p = (ip, tok)" by (cases p)
  show ?thesis
    using Some p line_loop_acc [of ls "[(ip, replace_char CHR ''-'' CHR '':'' (lower tok))]"]
    by simp
qed


lemma line_loop_no_pair: "\<not> line_has_pair l \<Longrightarrow> line_loop [l] [] = []"
  using search_arp_None_iff [of l] by simp

lemma line_loop_none:
  assumes "\<forall>l\<in>set ls. \<not> line_has_pair l"
  shows "line_loop ls [] = []"
  using assms
proof (induction ls)
  case Nil
  then show ?case by simp
next
  case (Cons l ls)
  then show ?case using line_loop_Cons [of l ls] line_loop_no_pair [of l] by simp
qed




lemma line_has_pair_digit:
  assumes "line_has_pair l"
  shows "\<exists>c\<in>set l. is_digit c"
proof -
  obtain pre ip ws tok post where h: "l = pre @ ip @ ws @ tok @ post" "is_quad ip"
    using assms unfolding line_has_pair_def by blast
  obtain a b c d where q: "ip = a @ ''.'' @ b @ ''.'' @ c @ ''.'' @ d" "digits a"
    using h(2) unfolding is_quad_def by blast
  obtain x where x: "x \<in> set a" "is_digit x"
    using q(2) unfolding digits_def list_all_iff by (cases a) auto
  have "x \<in> set l" unfolding h(1) q(1) using x(1) by simp
  with x(2) show ?thesis by blast
qed

lemma splitlines_from_chars:
  "l \<in> set (splitlines_from cur s) \<Longrightarrow> x \<in> set l \<Longrightarrow> x \<in> set cur \<or> x \<in> set s"
  by (induction cur s rule: splitlines_from.induct) (auto split: if_splits)

lemma splitlines_chars: "l \<in> set (splitlines s) \<Longrightarrow> set l \<subseteq> set s"
  using splitlines_from_chars [of l "[]" s] unfolding splitlines_def by auto


text \<open>
  Claim C7. Reading the neighbour cache never fails: it is a total function of the
  outcome of \<open>arp -a\<close>. When the command cannot be run or leaves with an error the
  result is the empty list; so it is for empty output, for output none of whose lines
  holds an address followed by a MAC token (a table with its header only), and for any
  text without a digit.
\<close>

theorem get_arp_entries_degrades:
  "get_arp_entries Failed = []
   \<and> get_arp_entries (Completed []) = []
   \<and> ((\<forall>l\<in>set (splitlines out). \<not> line_has_pair l) \<longrightarrow> get_arp_entries (Completed out) = [])
   \<and> (\<not> (\<exists>c\<in>set out. is_digit c) \<longrightarrow> get_arp_entries (Completed out) = [])"
proof -
  have a: "(\<forall>l\<in>set (splitlines out). \<not> line_has_pair l) \<longrightarrow> get_arp_entries (Completed out) = []"
    using line_loop_none [of "splitlines out"] by (simp add: get_arp_entries_def)
  have b: "\<not> (\<exists>c\<in>set out. is_digit c) \<longrightarrow> get_arp_entries (Completed out) = []"
  proof
    assume nd: "\<not> (\<exists>c\<in>set out. is_digit c)"
    have "\<forall>l\<in>set (splitlines out). \<not> line_has_pair l"
    proof
      fix l assume l: "l \<in> set (splitlines out)"
      show "\<not> line_has_pair l"
      proof
        assume "line_has_pair l"
        then obtain c where "c \<in> set l" "is_digit c" using line_has_pair_digit by blast
        then show False using nd splitlines_chars [OF l] by blast
      qed
    qed
    then show "get_arp_entries (Completed out) = []" using a by blast
  qed
  have c: "get_arp_entries Failed = [] \<and> get_arp_entries (Completed []) = []"
    by (simp add: get_arp_entries_def splitlines_def)
  show ?thesis using a b c by blast
qed

theorem get_arp_entries_degrades_witness:
  "splitlines header_only
     = [''Interface: 192.168.1.5 --- 0x3'', ''  Internet Address      Physical Address      Type'']
   \<and> \<not> line_has_pair ''Interface: 192.168.1.5 --- 0x3''
   \<and> \<not> line_has_pair ''  Internet Address      Physical Address      Type''
   \<and> get_arp_entries (Completed header_only) = []
   \<and> \<not> (\<exists>c\<in>set ''no neighbours, try again later''. is_digit c)
   \<and> get_arp_entries (Completed ''no neighbours, try again later'') = []"
proof -
  let ?l1 = "''Interface: 192.168.1.5 --- 0x3''"
  let ?l2 = "''  Internet Address      Physical Address      Type''"
  have sp: "splitlines header_only = [?l1, ?l2]" by code_simp
  have "search arp_pattern ?l1 = None" by code_simp
  then have n1: "\<not> line_has_pair ?l1" unfolding search_arp_None_iff .
  have "search arp_pattern ?l2 = None" by code_simp
  then have n2: "\<not> line_has_pair ?l2" unfolding search_arp_None_iff .
  have all: "\<forall>l\<in>set (splitlines header_only). \<not> line_has_pair l"
    unfolding sp using n1 n2 by simp
  have h: "get_arp_entries (Completed header_only) = []"
    using get_arp_entries_degrades [of header_only] all by blast
  have nd: "\<not> (\<exists>c\<in>set ''no neighbours, try again later''. is_digit c)"
    by (simp add: is_digit_def)
  have t: "get_arp_entries (Completed ''no neighbours, try again later'') = []"
    using get_arp_entries_degrades [of "''no neighbours, try again later''"] nd by blast
  show ?thesis using sp n1 n2 h nd t by blast
qed





section \<open>Targets of the sweep\<close>








end
